theory Spec2Isabelle
  imports Main "HOL-Library.List_Lexorder"
begin

text \<open>
  \<open>print_tree_unicode.py\<close> walks a directory depth first and prints one line per
  entry, files before directories, with tree-drawing connectors; a name with a character
  above 127 or below 32 is shown as its \<open>repr\<close> followed by the list of its code
  points.  The theory embeds \<open>char_to_codepoint\<close>, \<open>filename_with_codepoints\<close> and
  \<open>print_tree\<close> and proves the properties that the specification states of them.
\<close>

section \<open>Unicode strings\<close>

text \<open>
  A Python \<open>str\<close> is a sequence of Unicode code points, so a name or an output line is a
  list of code points; \<open>ord\<close> of a one-character string is the code point itself.  ASCII
  literals of the source are written through \<open>ascii\<close>; Python compares strings
  lexicographically by code point, which is the order of \<open>HOL-Library.List_Lexorder\<close>.
\<close>

type_synonym codepoint = nat
type_synonym ustr = "codepoint list"

definition ascii :: "string \<Rightarrow> ustr" where
  "ascii s = map of_char s"

text \<open>\<open>sep.join(xs)\<close>\<close>

fun join :: "ustr \<Rightarrow> ustr list \<Rightarrow> ustr" where
  "join sep [] = []"
| "join sep [x] = x"
| "join sep (x # y # ys) = x @ sep @ join sep (y # ys)"

text \<open>\<open>s.startswith(p)\<close>\<close>

definition startswith :: "ustr \<Rightarrow> ustr \<Rightarrow> bool" where
  "startswith s p = (take (length p) s = p)"

section \<open>The format specification \<open>04X\<close>\<close>

text \<open>
  \<open>f"{cp:04X}"\<close> writes \<open>cp\<close> in base 16 with the digits \<open>0123456789ABCDEF\<close>, without
  leading zeros, and then pads with \<open>0\<close> on the left up to width 4.
\<close>

definition upper_hex_digit :: "nat \<Rightarrow> codepoint" where
  "upper_hex_digit d = (if d < 10 then 48 + d else 55 + d)"

fun to_hex_upper :: "nat \<Rightarrow> ustr" where
  "to_hex_upper n =
     (if n < 16 then [upper_hex_digit n]
      else to_hex_upper (n div 16) @ [upper_hex_digit (n mod 16)])"

declare to_hex_upper.simps [simp del]

definition zero_pad :: "nat \<Rightarrow> ustr \<Rightarrow> ustr" where
  "zero_pad w s = replicate (w - length s) 48 @ s"

definition format_04X :: "nat \<Rightarrow> ustr" where
  "format_04X cp = zero_pad 4 (to_hex_upper cp)"

section \<open>\<open>char_to_codepoint\<close> and \<open>filename_with_codepoints\<close>\<close>

definition char_to_codepoint :: "codepoint \<Rightarrow> ustr" where
  "char_to_codepoint char =
     (let cp = char in
      if cp < 0x100 then ascii ''U+'' @ format_04X cp
      else ascii ''U+'' @ format_04X cp)"

text \<open>
  The conversion \<open>!r\<close> is \<open>repr\<close> of the string.  CPython chooses the quote (a single
  quote, unless the string has a single quote and no double quote) and then writes each
  character: the quote and the backslash behind a backslash, tab, newline and carriage
  return as \<open>\t\<close>, \<open>\n\<close>, \<open>\r\<close>, the other characters below 32 and 127 as \<open>\xhh\<close>, the
  remaining ASCII characters as they are, and a character above 127 as it is when
  \<open>str.isprintable\<close> holds of it and as \<open>\xhh\<close>, \<open>\uhhhh\<close> or \<open>\Uhhhhhhhh\<close> (lower-case
  digits) otherwise.  The table behind \<open>str.isprintable\<close> belongs to the Unicode database
  of the interpreter and is the parameter \<open>isprintable\<close>.
\<close>

definition lower_hex_digit :: "nat \<Rightarrow> codepoint" where
  "lower_hex_digit d = (if d < 10 then 48 + d else 87 + d)"

definition hex_escape :: "nat \<Rightarrow> nat \<Rightarrow> ustr" where
  "hex_escape w ch = map (\<lambda>i. lower_hex_digit ((ch div 16 ^ (w - 1 - i)) mod 16)) [0..<w]"

definition repr_quote :: "ustr \<Rightarrow> codepoint" where
  "repr_quote s = (if 39 \<in> set s \<and> 34 \<notin> set s then 34 else 39)"

text \<open>Code point 92 is the backslash, 39 the single and 34 the double quote.\<close>

definition repr_char :: "(codepoint \<Rightarrow> bool) \<Rightarrow> codepoint \<Rightarrow> codepoint \<Rightarrow> ustr" where
  "repr_char isprintable quote ch =
     (if ch = quote \<or> ch = 92 then [92, ch]
      else if ch = 9 then 92 # ascii ''t''
      else if ch = 10 then 92 # ascii ''n''
      else if ch = 13 then 92 # ascii ''r''
      else if ch < 32 \<or> ch = 127 then 92 # ascii ''x'' @ hex_escape 2 ch
      else if ch < 127 then [ch]
      else if \<not> isprintable ch then
        (if ch \<le> 0xff then 92 # ascii ''x'' @ hex_escape 2 ch
         else if ch \<le> 0xffff then 92 # ascii ''u'' @ hex_escape 4 ch
         else 92 # ascii ''U'' @ hex_escape 8 ch)
      else [ch])"

definition repr :: "(codepoint \<Rightarrow> bool) \<Rightarrow> ustr \<Rightarrow> ustr" where
  "repr isprintable s =
     (let quote = repr_quote s
      in [quote] @ concat (map (repr_char isprintable quote) s) @ [quote])"

definition filename_with_codepoints :: "(codepoint \<Rightarrow> bool) \<Rightarrow> ustr \<Rightarrow> ustr" where
  "filename_with_codepoints isprintable name =
     (let codepoints = map char_to_codepoint name
      in repr isprintable name @ ascii '' ['' @ join (ascii '' '') codepoints @ ascii '']'')"

section \<open>The file system\<close>

text \<open>
  \<open>print_tree\<close> reads the file system through three calls: \<open>os.listdir\<close>,
  \<open>os.path.join\<close> and \<open>os.path.isdir\<close>.  The model replaces a path by the subtree it
  resolves to.  A directory carries its children in the order in which the system lists
  them, and the error that listing it raises, if any: the children of a directory that
  cannot be listed are still there.  The tree is finite, so a symbolic link that leads
  back to one of its ancestors is outside the model.
\<close>

datatype os_error = PermissionError | FileNotFoundError | NotADirectoryError | OtherOSError

datatype node = Absent | File | Dir "os_error option" "(ustr \<times> node) list"

fun listdir :: "node \<Rightarrow> os_error + ustr list" where
  "listdir Absent = Inl FileNotFoundError"
| "listdir File = Inl NotADirectoryError"
| "listdir (Dir None cs) = Inr (map fst cs)"
| "listdir (Dir (Some e) cs) = Inl e"

fun isdir :: "node \<Rightarrow> bool" where
  "isdir (Dir err cs) = True"
| "isdir File = False"
| "isdir Absent = False"

text \<open>\<open>child root entry\<close> is what the path \<open>os.path.join(root, entry)\<close> resolves to.\<close>

fun child :: "node \<Rightarrow> ustr \<Rightarrow> node" where
  "child (Dir err cs) entry = (case map_of cs entry of Some n \<Rightarrow> n | None \<Rightarrow> Absent)"
| "child File entry = Absent"
| "child Absent entry = Absent"

section \<open>\<open>print_tree\<close>\<close>

text \<open>The two filters on the sorted listing.\<close>

definition filter_entries :: "bool \<Rightarrow> bool \<Rightarrow> ustr list \<Rightarrow> ustr list" where
  "filter_entries ignore_hidden ignore_git entries =
     (let entries = (if ignore_hidden
                     then filter (\<lambda>e. \<not> startswith e (ascii ''.'')) entries else entries);
          entries = (if ignore_git
                     then filter (\<lambda>e. e \<noteq> ascii ''.git'') entries else entries)
      in entries)"

text \<open>
  The loop that appends each entry to \<open>dirs\<close> or to \<open>files\<close> keeps the order of
  \<open>entries\<close> in both lists; \<open>all_entries\<close> is \<open>files + dirs\<close>.
\<close>

definition all_entries :: "node \<Rightarrow> bool \<Rightarrow> bool \<Rightarrow> ustr list \<Rightarrow> ustr list" where
  "all_entries root ignore_hidden ignore_git names =
     (let entries = filter_entries ignore_hidden ignore_git (sort names);
          (dirs, files) = partition (\<lambda>entry. isdir (child root entry)) entries
      in files @ dirs)"

text \<open>
  The glyphs: U+2514 is the corner, U+251C the tee, U+2500 the horizontal bar and
  U+2502 the vertical bar.
\<close>

definition connector :: "bool \<Rightarrow> ustr" where
  "connector is_last = (if is_last then [0x2514, 0x2500, 0x2500, 32]
                        else [0x251C, 0x2500, 0x2500, 32])"

definition extension :: "bool \<Rightarrow> ustr" where
  "extension is_last = (if is_last then ascii ''    '' else [0x2502, 32, 32, 32])"

definition has_special :: "ustr \<Rightarrow> bool" where
  "has_special entry = list_ex (\<lambda>c. c > 127 \<or> c < 32) entry"

text \<open>
  \<open>is_last = (i == len(all_entries) - 1)\<close>, on Python's integers: the difference is
  \<open>-1\<close> for an empty list.
\<close>

definition last_index :: "nat \<Rightarrow> nat \<Rightarrow> bool" where
  "last_index i n = (int i = int n - 1)"

text \<open>The line printed for one entry.\<close>

definition entry_line :: "(codepoint \<Rightarrow> bool) \<Rightarrow> ustr \<Rightarrow> bool \<Rightarrow> ustr \<Rightarrow> bool \<Rightarrow> ustr" where
  "entry_line isprintable prefix is_last entry is_dir =
     (if has_special entry
      then prefix @ connector is_last @ filename_with_codepoints isprintable entry
             @ (if is_dir then ascii ''/'' else [])
      else prefix @ connector is_last @ entry @ (if is_dir then ascii ''/'' else []))"

text \<open>
  The result is the lines printed, in order, and the exception that ended the call, if
  any.  \<open>print_entries\<close> is the loop over \<open>enumerate(all_entries)\<close> from index \<open>i\<close> on,
  with \<open>n = len(all_entries)\<close>; an exception raised in a recursive call ends the loop.
\<close>

function print_tree ::
    "(codepoint \<Rightarrow> bool) \<Rightarrow> node \<Rightarrow> ustr \<Rightarrow> bool \<Rightarrow> bool \<Rightarrow> ustr list \<times> os_error option"
  and print_entries ::
    "(codepoint \<Rightarrow> bool) \<Rightarrow> node \<Rightarrow> ustr \<Rightarrow> bool \<Rightarrow> bool \<Rightarrow> nat \<Rightarrow> nat \<Rightarrow> ustr list
       \<Rightarrow> ustr list \<times> os_error option"
where
  "print_tree isprintable root prefix ignore_hidden ignore_git =
     (case listdir root of
        Inl e \<Rightarrow>
          (if e = PermissionError then ([prefix @ ascii ''[Permission Denied]''], None)
           else ([], Some e))
      | Inr names \<Rightarrow>
          print_entries isprintable root prefix ignore_hidden ignore_git
            (length (all_entries root ignore_hidden ignore_git names)) 0
            (all_entries root ignore_hidden ignore_git names))"
| "print_entries isprintable root prefix ignore_hidden ignore_git n i [] = ([], None)"
| "print_entries isprintable root prefix ignore_hidden ignore_git n i (entry # rest) =
     (if isdir (child root entry)
      then
        (case print_tree isprintable (child root entry)
                (prefix @ extension (last_index i n)) ignore_hidden ignore_git of
           (out, Some e) \<Rightarrow>
             (entry_line isprintable prefix (last_index i n) entry True # out, Some e)
         | (out, None) \<Rightarrow>
             (case print_entries isprintable root prefix ignore_hidden ignore_git n (i + 1) rest of
                (out', r) \<Rightarrow>
                  (entry_line isprintable prefix (last_index i n) entry True # out @ out', r)))
      else
        (case print_entries isprintable root prefix ignore_hidden ignore_git n (i + 1) rest of
           (out', r) \<Rightarrow>
             (entry_line isprintable prefix (last_index i n) entry False # out', r)))"
  by pat_completeness auto
termination
proof (relation "inv_image (less_than <*lex*> less_than <*lex*> less_than)
        (\<lambda>x. case x of
           Inl (p, root, prefix, ih, ig) \<Rightarrow> (size root, 1::nat, 0::nat)
         | Inr (p, root, prefix, ih, ig, n, i, es) \<Rightarrow> (size root, 0, length es))",
       goal_cases)
  case (3 isprintable root prefix ignore_hidden ignore_git n i entry rest)
  have "size (child root entry) < size root"
  proof (cases root)
    case (Dir err cs)
    then obtain c where c: "map_of cs entry = Some c" "child root entry = c"
      using 3 by (auto split: option.splits)
    then have "(entry, c) \<in> set cs" by (simp add: map_of_SomeD)
    then have "size c < Suc (size_list (size_prod (\<lambda>x. 0) size) cs)"
      by (induction cs) auto
    then show ?thesis using Dir c by simp
  qed (use 3 in simp_all)
  then show ?case by simp
qed auto

declare print_tree.simps [simp del]

section \<open>Notions of the specification\<close>

text \<open>
  The upper-case hexadecimal numeral of \<open>n\<close>, padded with zeros to at least four digits,
  read off position by position: \<open>hex_len n\<close> is the number of hexadecimal digits of
  \<open>n\<close>, the numeral has \<open>max 4 (hex_len n)\<close> digits, and the digit at position \<open>i\<close>
  from the left is the one of weight \<open>16 ^ (w - 1 - i)\<close>.
\<close>

fun hex_len :: "nat \<Rightarrow> nat" where
  "hex_len n = (if n < 16 then 1 else Suc (hex_len (n div 16)))"

declare hex_len.simps [simp del]

definition spec_upper_hex4 :: "nat \<Rightarrow> ustr" where
  "spec_upper_hex4 n =
     (let w = max 4 (hex_len n)
      in map (\<lambda>i. ascii ''0123456789ABCDEF'' ! ((n div 16 ^ (w - 1 - i)) mod 16)) [0..<w])"

text \<open>
  What the loop prints for the entry at index \<open>i\<close>: its line and, for a directory, the
  lines of the recursive call.
\<close>

definition entry_block ::
  "(codepoint \<Rightarrow> bool) \<Rightarrow> node \<Rightarrow> ustr \<Rightarrow> bool \<Rightarrow> bool \<Rightarrow> nat \<Rightarrow> nat \<times> ustr \<Rightarrow> ustr list" where
  "entry_block isprintable root prefix ignore_hidden ignore_git n ie =
     entry_line isprintable prefix (last_index (fst ie) n) (snd ie) (isdir (child root (snd ie)))
     # (if isdir (child root (snd ie))
        then fst (print_tree isprintable (child root (snd ie))
                    (prefix @ extension (last_index (fst ie) n)) ignore_hidden ignore_git)
        else [])"

text \<open>
  A line of the listing printed with \<open>prefix\<close> itself, as opposed to a line of a
  deeper listing or the placeholder: the character behind the prefix is the corner or
  the tee.
\<close>

definition is_level_line :: "ustr \<Rightarrow> ustr \<Rightarrow> bool" where
  "is_level_line prefix l =
     (length prefix < length l \<and> (l ! length prefix = 0x2514 \<or> l ! length prefix = 0x251C))"

text \<open>The placeholder line of a directory that cannot be listed.\<close>

definition denied_line :: "ustr \<Rightarrow> ustr" where
  "denied_line prefix = prefix @ ascii ''[Permission Denied]''"

text \<open>The lines of the listing printed with \<open>prefix\<close>, out of a whole output.\<close>

definition listing_lines :: "ustr \<Rightarrow> ustr list \<Rightarrow> ustr list" where
  "listing_lines prefix out = filter (is_level_line prefix) out"

text \<open>An entry survives the filters when no enabled toggle excludes it.\<close>

definition survives :: "bool \<Rightarrow> bool \<Rightarrow> ustr \<Rightarrow> bool" where
  "survives ignore_hidden ignore_git name =
     (\<not> (ignore_hidden \<and> startswith name (ascii ''.''))
      \<and> \<not> (ignore_git \<and> name = ascii ''.git''))"

text \<open>
  The annotated form of the specification: the name as \<open>repr\<close> writes it, then the
  bracketed list with one token per character, each \<open>U+\<close> and the padded upper-case
  hexadecimal numeral of the code point, separated by single spaces.
\<close>

definition spec_annotated :: "(codepoint \<Rightarrow> bool) \<Rightarrow> ustr \<Rightarrow> ustr" where
  "spec_annotated isprintable name =
     repr isprintable name @ ascii '' [''
       @ join (ascii '' '') (map (\<lambda>c. ascii ''U+'' @ spec_upper_hex4 c) name) @ ascii '']''"

text \<open>
  A table for the examples.  It agrees with \<open>str.isprintable\<close> on the code points from
  128 to 255, where the no-break space U+00A0 and the soft hyphen U+00AD are not
  printable, and takes every code point from 256 on as not printable, as the zero-width
  space U+200B is.
\<close>

definition latin1_isprintable :: "codepoint \<Rightarrow> bool" where
  "latin1_isprintable c = (160 < c \<and> c < 256 \<and> c \<noteq> 173)"

text \<open>
  A tree for the examples: two files and a directory in unsorted order, a hidden
  directory, a file named with a zero-width space, and a directory that cannot be listed.
\<close>

definition example_tree :: node where
  "example_tree =
     Dir None
       [(ascii ''b.txt'', File),
        (ascii ''sub'', Dir None [(ascii ''n'', File)]),
        (ascii ''a.txt'', File),
        (ascii ''.git'', Dir None [(ascii ''HEAD'', File)]),
        ([97, 0x200B], File),
        (ascii ''locked'', Dir (Some PermissionError) [(ascii ''x'', File)])]"

definition example_names :: "ustr list" where
  "example_names =
     [ascii ''b.txt'', ascii ''sub'', ascii ''a.txt'', ascii ''.git'', [97, 0x200B],
      ascii ''locked'']"

text \<open>
  A tree with a directory whose listing raises an error other than \<open>PermissionError\<close>:
  two files, the directory \<open>bad\<close> that cannot be read, and a directory \<open>c\<close> with one
  file, which sorts behind \<open>bad\<close>.
\<close>

definition unreadable_tree :: node where
  "unreadable_tree =
     Dir None
       [(ascii ''a'', File),
        (ascii ''zfile'', File),
        (ascii ''bad'', Dir (Some OtherOSError) []),
        (ascii ''c'', Dir None [(ascii ''y'', File)])]"

definition unreadable_names :: "ustr list" where
  "unreadable_names = [ascii ''a'', ascii ''zfile'', ascii ''bad'', ascii ''c'']"

text \<open>
  The characters that \<open>repr\<close> writes as they are, given the quote it chose: neither
  the quote nor the backslash, not below 32, not 127, and printable when above 127.
\<close>

definition verbatim :: "(codepoint \<Rightarrow> bool) \<Rightarrow> codepoint \<Rightarrow> codepoint \<Rightarrow> bool" where
  "verbatim isprintable quote ch =
     (ch \<noteq> quote \<and> ch \<noteq> 92 \<and> 32 \<le> ch \<and> ch \<noteq> 127 \<and> (127 < ch \<longrightarrow> isprintable ch))"

text \<open>
  The annotated form with the characters of the name as they are between two quotes,
  followed by the bracketed list.
\<close>

definition quoted_annotation :: "codepoint \<Rightarrow> ustr \<Rightarrow> ustr" where
  "quoted_annotation quote name =
     [quote] @ name @ [quote] @ ascii '' [''
       @ join (ascii '' '') (map char_to_codepoint name) @ ascii '']''"

text \<open>
  The entries reachable under a directory that survive the filters: the surviving
  children of a directory that can be listed and, through those of them that are
  directories, the entries reachable under them.  Nothing is reachable through a
  file, a filtered entry or a directory that cannot be listed.
\<close>

fun count_entries :: "bool \<Rightarrow> bool \<Rightarrow> node \<Rightarrow> nat" where
  "count_entries ih ig (Dir None cs) =
     sum_list (map (\<lambda>(name, c). if survives ih ig name then 1 + count_entries ih ig c else 0) cs)"
| "count_entries ih ig (Dir (Some e) cs) = 0"
| "count_entries ih ig File = 0"
| "count_entries ih ig Absent = 0"

text \<open>The names of the children of a directory are distinct, throughout the tree.\<close>

fun distinct_names :: "node \<Rightarrow> bool" where
  "distinct_names (Dir err cs) =
     (distinct (map fst cs) \<and> list_all (\<lambda>(name, c). distinct_names c) cs)"
| "distinct_names File = True"
| "distinct_names Absent = True"

text \<open>
  An entry line, in an output printed under a prefix of spaces and vertical bars: behind
  the leading spaces and bars comes the corner or the tee.  The placeholder of a
  directory that cannot be listed has a bracket there.
\<close>

definition is_entry_line :: "ustr \<Rightarrow> bool" where
  "is_entry_line l =
     (case dropWhile (\<lambda>c. c = 32 \<or> c = 0x2502) l of
        [] \<Rightarrow> False
      | c # r \<Rightarrow> c = 0x2514 \<or> c = 0x251C)"

section \<open>The hexadecimal numeral\<close>

lemma upper_hex_digit_table:
  "d < 16 \<Longrightarrow> upper_hex_digit d = ascii ''0123456789ABCDEF'' ! d"
proof -
  assume "d < 16"
  then have "d \<in> set [0..<16]" by simp
  then have "d \<in> {0,1,2,3,4,5,6,7,8,9,10,11,12,13,14,15}"
    by (simp add: upt_rec numeral_eq_Suc del: upt_Suc)  
  then show ?thesis
    by (auto simp: upper_hex_digit_def ascii_def)
qed

lemma length_to_hex_upper: "length (to_hex_upper n) = hex_len n"
  by (induction n rule: to_hex_upper.induct)
     (subst to_hex_upper.simps, subst hex_len.simps, simp)

lemma hex_len_pos: "0 < hex_len n"
  by (subst hex_len.simps) simp

lemma less_pow_hex_len: "n < 16 ^ hex_len n"
proof (induction n rule: hex_len.induct)
  case (1 n)
  show ?case
  proof (cases "n < 16")
    case True
    then show ?thesis by (subst hex_len.simps) simp
  next
    case False
    then have "n div 16 < 16 ^ hex_len (n div 16)" using 1 by simp
    then have "n < 16 * 16 ^ hex_len (n div 16)" by arith
    then show ?thesis using False by (subst hex_len.simps) simp
  qed
qed

lemma nth_to_hex_upper:
  "i < hex_len n \<Longrightarrow>
     to_hex_upper n ! i = upper_hex_digit ((n div 16 ^ (hex_len n - 1 - i)) mod 16)"
proof (induction n arbitrary: i rule: to_hex_upper.induct)
  case (1 n)
  show ?case
  proof (cases "n < 16")
    case True
    then have "hex_len n = 1" by (subst hex_len.simps) simp
    then show ?thesis using True 1(2) by (subst to_hex_upper.simps) simp
  next
    case False
    let ?m = "hex_len (n div 16)"
    have len: "hex_len n = Suc ?m" using False by (subst hex_len.simps) simp
    have unfold: "to_hex_upper n = to_hex_upper (n div 16) @ [upper_hex_digit (n mod 16)]"
      using False by (subst to_hex_upper.simps) simp
    show ?thesis
    proof (cases "i < ?m")
      case True
      have "to_hex_upper n ! i = to_hex_upper (n div 16) ! i"
        using True by (simp add: unfold nth_append length_to_hex_upper)
      also have "\<dots> = upper_hex_digit ((n div 16 div 16 ^ (?m - 1 - i)) mod 16)"
        using 1(1) [OF False True] .
      also have "n div 16 div 16 ^ (?m - 1 - i) = n div 16 ^ Suc (?m - 1 - i)"
        by (simp add: div_mult2_eq)
      also have "Suc (?m - 1 - i) = hex_len n - 1 - i" using True len by simp
      finally show ?thesis .
    next
      case False
      then have "i = ?m" using 1(2) len by simp
      then show ?thesis by (simp add: unfold nth_append length_to_hex_upper len)
    qed
  qed
qed

lemma format_04X_spec: "format_04X n = spec_upper_hex4 n"
proof (rule nth_equalityI)
  let ?w = "max 4 (hex_len n)"
  show len: "length (format_04X n) = length (spec_upper_hex4 n)"
    by (auto simp: format_04X_def zero_pad_def spec_upper_hex4_def length_to_hex_upper Let_def)
  fix i assume "i < length (format_04X n)"
  then have i: "i < ?w" using len by (simp add: spec_upper_hex4_def Let_def)
  have d16: "(n div 16 ^ (?w - 1 - i)) mod 16 < 16" by simp
  have "spec_upper_hex4 n ! i = ascii ''0123456789ABCDEF'' ! ((n div 16 ^ (?w - 1 - i)) mod 16)"
    using i by (simp add: spec_upper_hex4_def Let_def del: upt_Suc)
  also have "\<dots> = upper_hex_digit ((n div 16 ^ (?w - 1 - i)) mod 16)"
    by (rule upper_hex_digit_table [OF d16, symmetric])
  finally have spec:
    "spec_upper_hex4 n ! i = upper_hex_digit ((n div 16 ^ (?w - 1 - i)) mod 16)" .
  show "format_04X n ! i = spec_upper_hex4 n ! i"
  proof (cases "i < 4 - hex_len n")
    case True
    then have "hex_len n \<le> ?w - 1 - i" by simp
    then have "(16::nat) ^ hex_len n \<le> 16 ^ (?w - 1 - i)"
      by (rule power_increasing) simp
    with less_pow_hex_len [of n] have "n < 16 ^ (?w - 1 - i)"
      by (rule less_le_trans)
    then have "n div 16 ^ (?w - 1 - i) = 0" by (rule div_less)
    then have "spec_upper_hex4 n ! i = 48" unfolding spec by (simp add: upper_hex_digit_def)
    then show ?thesis using True
      by (simp add: format_04X_def zero_pad_def nth_append length_to_hex_upper)
  next
    case False
    then have j: "i - (4 - hex_len n) < hex_len n" using i by auto
    have "format_04X n ! i = to_hex_upper n ! (i - (4 - hex_len n))"
      using False by (simp add: format_04X_def zero_pad_def nth_append length_to_hex_upper)
    also have "\<dots> = upper_hex_digit ((n div 16 ^ (hex_len n - 1 - (i - (4 - hex_len n)))) mod 16)"
      by (rule nth_to_hex_upper [OF j])
    also have "hex_len n - 1 - (i - (4 - hex_len n)) = ?w - 1 - i" using False i by auto
    finally show ?thesis by (simp add: spec)
  qed
qed

text \<open>
  C9: for every character both branches of \<open>char_to_codepoint\<close> give the same string, so
  whatever the code point, below or above \<open>0x100\<close> and \<open>0x10000\<close>, the result is \<open>U+\<close>
  followed by the upper-case hexadecimal numeral of the code point padded with zeros to
  at least four digits.
\<close>

theorem char_to_codepoint_uniform:
  "char_to_codepoint c = ascii ''U+'' @ spec_upper_hex4 c
   \<and> length (char_to_codepoint c) = 2 + max 4 (hex_len c)"
  by (simp add: char_to_codepoint_def format_04X_spec [symmetric] format_04X_def zero_pad_def
      length_to_hex_upper ascii_def)

section \<open>Evaluation on the examples\<close>

lemma replicate_numeral: "replicate (numeral k) x = x # replicate (pred_numeral k) x"
  by (simp add: numeral_eq_Suc)

lemmas eval_defs = print_tree.simps all_entries_def filter_entries_def ascii_def startswith_def
  entry_line_def connector_def extension_def has_special_def filename_with_codepoints_def
  repr_def repr_char_def repr_quote_def hex_escape_def lower_hex_digit_def
  char_to_codepoint_def format_04X_def zero_pad_def to_hex_upper.simps upper_hex_digit_def
  last_index_def latin1_isprintable_def example_tree_def example_names_def replicate_numeral
  upt_conv_Cons unreadable_tree_def unreadable_names_def

lemma print_tree_example:
  "print_tree latin1_isprintable example_tree [] True True =
     ([[0x251C, 0x2500, 0x2500, 32] @ ascii ''a.txt'',
       [0x251C, 0x2500, 0x2500, 32, 39, 97, 92] @ ascii ''u200b'' @ [39] @ ascii '' [U+0061 U+200B]'',
       [0x251C, 0x2500, 0x2500, 32] @ ascii ''b.txt'',
       [0x251C, 0x2500, 0x2500, 32] @ ascii ''locked/'',
       [0x2502] @ ascii ''   [Permission Denied]'',
       [0x2514, 0x2500, 0x2500, 32] @ ascii ''sub/'',
       ascii ''    '' @ [0x2514, 0x2500, 0x2500, 32] @ ascii ''n''],
      None)"
  by (simp add: eval_defs)

lemma print_tree_unreadable:
  "print_tree latin1_isprintable unreadable_tree [] True True =
     ([[0x251C, 0x2500, 0x2500, 32] @ ascii ''a'',
       [0x251C, 0x2500, 0x2500, 32] @ ascii ''zfile'',
       [0x251C, 0x2500, 0x2500, 32] @ ascii ''bad/''],
      Some OtherOSError)"
  by (simp add: eval_defs)



lemma listdir_example: "listdir example_tree = Inr example_names"
  by (simp add: example_tree_def example_names_def)

section \<open>The structure of the output\<close>

lemma size_child: "isdir (child root entry) \<Longrightarrow> size (child root entry) < size root"
proof (cases root)
  case (Dir err cs)
  assume "isdir (child root entry)"
  then obtain c where c: "map_of cs entry = Some c" "child root entry = c"
    using Dir by (auto split: option.splits)
  then have "(entry, c) \<in> set cs" by (simp add: map_of_SomeD)
  then have "size c < Suc (size_list (size_prod (\<lambda>x. 0) size) cs)"
    by (induction cs) auto
  then show ?thesis using Dir c by simp
qed simp_all

lemma node_induct [case_names node]:
  assumes "\<And>root. (\<And>entry. isdir (child root entry) \<Longrightarrow> Q (child root entry)) \<Longrightarrow> Q root"
  shows "Q root"
proof (induction root rule: measure_induct_rule [of size])
  case (less root)
  show ?case by (rule assms) (rule less, rule size_child)
qed

lemma print_entries_file:
  "\<not> isdir (child root e) \<Longrightarrow>
     print_entries P root prefix ih ig n i (e # rest)
       = (entry_line P prefix (last_index i n) e False
            # fst (print_entries P root prefix ih ig n (Suc i) rest),
          snd (print_entries P root prefix ih ig n (Suc i) rest))"
  by (simp split: prod.splits)

lemma print_entries_dir_raises:
  "isdir (child root e) \<Longrightarrow>
   snd (print_tree P (child root e) (prefix @ extension (last_index i n)) ih ig) = Some err \<Longrightarrow>
     print_entries P root prefix ih ig n i (e # rest)
       = (entry_line P prefix (last_index i n) e True
            # fst (print_tree P (child root e) (prefix @ extension (last_index i n)) ih ig),
          Some err)"
  by (cases "print_tree P (child root e) (prefix @ extension (last_index i n)) ih ig") simp

lemma print_entries_dir_returns:
  "isdir (child root e) \<Longrightarrow>
   snd (print_tree P (child root e) (prefix @ extension (last_index i n)) ih ig) = None \<Longrightarrow>
     print_entries P root prefix ih ig n i (e # rest)
       = (entry_line P prefix (last_index i n) e True
            # fst (print_tree P (child root e) (prefix @ extension (last_index i n)) ih ig)
            @ fst (print_entries P root prefix ih ig n (Suc i) rest),
          snd (print_entries P root prefix ih ig n (Suc i) rest))"
  by (cases "print_tree P (child root e) (prefix @ extension (last_index i n)) ih ig")
     (simp split: prod.splits)

lemma print_entries_blocks:
  "\<exists>k\<le>length es.
     fst (print_entries P root prefix ih ig n i es)
       = concat (map (entry_block P root prefix ih ig n) (take k (enumerate i es)))
     \<and> (snd (print_entries P root prefix ih ig n i es) = None \<longrightarrow> k = length es)"
proof (induction es arbitrary: i)
  case Nil
  show ?case by simp
next
  case (Cons e es)
  from Cons [of "Suc i"] obtain k where k: "k \<le> length es"
    "fst (print_entries P root prefix ih ig n (Suc i) es)
       = concat (map (entry_block P root prefix ih ig n) (take k (enumerate (Suc i) es)))"
    "snd (print_entries P root prefix ih ig n (Suc i) es) = None \<longrightarrow> k = length es"
    by (elim exE conjE)
  let ?child = "print_tree P (child root e) (prefix @ extension (last_index i n)) ih ig"
  consider (regular) "\<not> isdir (child root e)"
    | (raises) err where "isdir (child root e)" "snd ?child = Some err"
    | (returns) "isdir (child root e)" "snd ?child = None"
    by (cases "snd ?child") blast+
  then show ?case
  proof cases
    case regular
    have "fst (print_entries P root prefix ih ig n i (e # es))
       = concat (map (entry_block P root prefix ih ig n) (take (Suc k) (enumerate i (e # es))))"
      unfolding print_entries_file [OF regular] by (simp add: k(2) entry_block_def regular)
    moreover have "snd (print_entries P root prefix ih ig n i (e # es)) = None
        \<longrightarrow> Suc k = length (e # es)"
      unfolding print_entries_file [OF regular] using k(3) by simp
    ultimately show ?thesis using k(1) by (intro exI [of _ "Suc k"]) simp
  next
    case raises
    have a: "fst (print_entries P root prefix ih ig n i (e # es))
       = concat (map (entry_block P root prefix ih ig n) (take (Suc 0) (enumerate i (e # es))))"
      by (simp only: print_entries_dir_raises [OF raises] entry_block_def fst_conv snd_conv
            enumerate_simps take_Suc_Cons take_0 list.map concat.simps raises(1) if_True append_Nil2)
    have b: "snd (print_entries P root prefix ih ig n i (e # es)) \<noteq> None"
      by (simp only: print_entries_dir_raises [OF raises] snd_conv) simp
    show ?thesis
    proof (intro exI [of _ "Suc 0"] conjI impI)
      show "Suc 0 \<le> length (e # es)" by simp
      show "fst (print_entries P root prefix ih ig n i (e # es))
       = concat (map (entry_block P root prefix ih ig n) (take (Suc 0) (enumerate i (e # es))))"
        by (rule a)
      assume "snd (print_entries P root prefix ih ig n i (e # es)) = None"
      with b show "Suc 0 = length (e # es)" by contradiction
    qed
  next
    case returns
    have a: "fst (print_entries P root prefix ih ig n i (e # es))
       = concat (map (entry_block P root prefix ih ig n) (take (Suc k) (enumerate i (e # es))))"
      by (simp only: print_entries_dir_returns [OF returns] entry_block_def fst_conv snd_conv
            enumerate_simps take_Suc_Cons list.map concat.simps returns(1) if_True k(2)
            append_Cons append_assoc)
    have b: "snd (print_entries P root prefix ih ig n i (e # es))
        = snd (print_entries P root prefix ih ig n (Suc i) es)"
      by (simp only: print_entries_dir_returns [OF returns] snd_conv)
    show ?thesis
    proof (intro exI [of _ "Suc k"] conjI impI)
      show "Suc k \<le> length (e # es)" using k(1) by simp
      show "fst (print_entries P root prefix ih ig n i (e # es))
       = concat (map (entry_block P root prefix ih ig n) (take (Suc k) (enumerate i (e # es))))"
        by (rule a)
      assume "snd (print_entries P root prefix ih ig n i (e # es)) = None"
      then have "k = length es" using k(3) b by simp
      then show "Suc k = length (e # es)" by simp
    qed
  qed
qed

lemma length_connector: "length (connector b) = 4"
  by (simp add: connector_def)

lemma length_extension: "length (extension b) = 4"
  by (simp add: extension_def ascii_def)

lemma hd_connector: "connector b ! 0 = 0x2514 \<or> connector b ! 0 = 0x251C"
  by (simp add: connector_def)

lemma hd_extension: "extension b ! 0 \<noteq> 0x2514 \<and> extension b ! 0 \<noteq> 0x251C"
  by (simp add: extension_def ascii_def)

lemma entry_line_prefix: "\<exists>r. entry_line P prefix b e d = prefix @ connector b @ r"
  by (simp add: entry_line_def)

lemma print_tree_listing:
  "listdir root = Inr names \<Longrightarrow>
     print_tree P root prefix ih ig
       = print_entries P root prefix ih ig (length (all_entries root ih ig names)) 0
           (all_entries root ih ig names)"
  by (simp add: print_tree.simps)

lemma print_tree_listing_fails:
  "listdir root = Inl e \<Longrightarrow>
     print_tree P root prefix ih ig
       = (if e = PermissionError then ([denied_line prefix], None) else ([], Some e))"
  by (simp add: print_tree.simps denied_line_def)

lemma print_lines_shape:
  "l \<in> set (fst (print_tree P root prefix ih ig)) \<Longrightarrow>
     l = denied_line prefix \<or> (\<exists>b r. l = prefix @ connector b @ r)
     \<or> (\<exists>b r. l = prefix @ extension b @ r \<and> r \<noteq> [])"
proof (induction root arbitrary: l prefix rule: node_induct)
  case (node root)
  show ?case
  proof (cases "listdir root")
    case (Inl e)
    then show ?thesis using node.prems
      by (simp add: print_tree_listing_fails split: if_splits)
  next
    case (Inr names)
    let ?all = "all_entries root ih ig names"
    let ?n = "length ?all"
    from node.prems have l: "l \<in> set (fst (print_entries P root prefix ih ig ?n 0 ?all))"
      by (simp only: print_tree_listing [OF Inr])
    obtain k where "fst (print_entries P root prefix ih ig ?n 0 ?all)
       = concat (map (entry_block P root prefix ih ig ?n) (take k (enumerate 0 ?all)))"
      using print_entries_blocks [of ?all P root prefix ih ig ?n 0] by (elim exE conjE)
    with l obtain ie where l': "l \<in> set (entry_block P root prefix ih ig ?n ie)" by auto
    let ?b = "last_index (fst ie) ?n"
    show ?thesis
    proof (cases "l = entry_line P prefix ?b (snd ie) (isdir (child root (snd ie)))")
      case True
      then show ?thesis using entry_line_prefix [of P prefix ?b "snd ie"] by metis
    next
      case False
      with l' have d: "isdir (child root (snd ie))"
        and c: "l \<in> set (fst (print_tree P (child root (snd ie)) (prefix @ extension ?b) ih ig))"
        by (auto simp: entry_block_def split: if_splits)
      from node.IH [OF d c] consider
          "l = denied_line (prefix @ extension ?b)"
        | b r where "l = (prefix @ extension ?b) @ connector b @ r"
        | b r where "l = (prefix @ extension ?b) @ extension b @ r"
        by blast
      then have "\<exists>r. l = prefix @ extension ?b @ r \<and> r \<noteq> []"
      proof cases
        case 1
        then show ?thesis by (simp add: denied_line_def ascii_def)
      next
        case 2
        have "connector b @ r \<noteq> []" by (simp add: connector_def)
        with 2 show ?thesis by simp
      next
        case 3
        have "extension b @ r \<noteq> []" by (simp add: extension_def ascii_def)
        with 3 show ?thesis by simp
      qed
      then show ?thesis by blast
    qed
  qed
qed

lemma level_line_entry: "is_level_line prefix (entry_line P prefix b e d)"
proof -
  obtain r where "entry_line P prefix b e d = prefix @ connector b @ r"
    using entry_line_prefix by blast
  then show ?thesis
    using hd_connector [of b] by (simp add: is_level_line_def nth_append length_connector)
qed

lemma level_line_deeper: "r \<noteq> [] \<Longrightarrow> \<not> is_level_line prefix (prefix @ extension b @ r)"
  using hd_extension [of b] by (simp add: is_level_line_def nth_append length_extension)

lemma level_line_denied: "\<not> is_level_line prefix (denied_line prefix)"
  by (simp add: is_level_line_def denied_line_def ascii_def nth_append)

lemma level_line_child:
  assumes "l \<in> set (fst (print_tree P root (prefix @ extension b) ih ig))"
  shows "\<not> is_level_line prefix l"
proof -
  from print_lines_shape [OF assms] consider
      "l = denied_line (prefix @ extension b)"
    | b' r where "l = (prefix @ extension b) @ connector b' @ r"
    | b' r where "l = (prefix @ extension b) @ extension b' @ r"
    by blast
  then obtain r where "l = prefix @ extension b @ r" "r \<noteq> []"
  proof cases
    case 1
    then show ?thesis using that [of "ascii ''[Permission Denied]''"]
      by (simp add: denied_line_def ascii_def)
  next
    case 2
    then show ?thesis using that [of "connector b' @ r"] by (simp add: connector_def)
  next
    case 3
    then show ?thesis using that [of "extension b' @ r"] by (simp add: extension_def ascii_def)
  qed
  then show ?thesis using level_line_deeper by simp
qed

lemma level_lines_block:
  "filter (is_level_line prefix) (entry_block P root prefix ih ig n ie)
     = [entry_line P prefix (last_index (fst ie) n) (snd ie) (isdir (child root (snd ie)))]"
proof -
  have "filter (is_level_line prefix)
          (fst (print_tree P (child root (snd ie)) (prefix @ extension (last_index (fst ie) n)) ih ig))
        = []"
    using level_line_child by (simp add: filter_empty_conv)
  then show ?thesis by (simp add: entry_block_def level_line_entry)
qed

lemma level_lines_blocks:
  "filter (is_level_line prefix) (concat (map (entry_block P root prefix ih ig n) xs))
     = map (\<lambda>ie. entry_line P prefix (last_index (fst ie) n) (snd ie) (isdir (child root (snd ie)))) xs"
  by (induction xs) (simp_all add: level_lines_block)

lemma print_tree_blocks:
  assumes "listdir root = Inr names"
  shows "\<exists>k\<le>length (all_entries root ih ig names).
     fst (print_tree P root prefix ih ig)
       = concat (map (entry_block P root prefix ih ig (length (all_entries root ih ig names)))
                   (take k (enumerate 0 (all_entries root ih ig names))))
     \<and> (snd (print_tree P root prefix ih ig) = None \<longrightarrow> k = length (all_entries root ih ig names))"
  unfolding print_tree_listing [OF assms] by (rule print_entries_blocks)

lemma print_tree_listing_lines:
  assumes "listdir root = Inr names"
  shows "\<exists>k\<le>length (all_entries root ih ig names).
     length (listing_lines prefix (fst (print_tree P root prefix ih ig))) = k
     \<and> (snd (print_tree P root prefix ih ig) = None \<longrightarrow> k = length (all_entries root ih ig names))
     \<and> (\<forall>i<k. listing_lines prefix (fst (print_tree P root prefix ih ig)) ! i
           = entry_line P prefix (last_index i (length (all_entries root ih ig names)))
               (all_entries root ih ig names ! i)
               (isdir (child root (all_entries root ih ig names ! i))))"
proof -
  let ?all = "all_entries root ih ig names"
  let ?out = "fst (print_tree P root prefix ih ig)"
  let ?line = "\<lambda>ie. entry_line P prefix (last_index (fst ie) (length ?all)) (snd ie)
                  (isdir (child root (snd ie)))"
  from print_tree_blocks [OF assms, of ih ig P prefix]
  obtain k where k: "k \<le> length ?all"
    "?out = concat (map (entry_block P root prefix ih ig (length ?all)) (take k (enumerate 0 ?all)))"
    "snd (print_tree P root prefix ih ig) = None \<longrightarrow> k = length ?all"
    by (elim exE conjE)
  have lines: "listing_lines prefix ?out = map ?line (take k (enumerate 0 ?all))"
    unfolding listing_lines_def by (subst k(2)) (rule level_lines_blocks)
  have len: "length (listing_lines prefix ?out) = k"
    using k(1) by (simp add: lines)
  have nth: "listing_lines prefix ?out ! i = ?line (i, ?all ! i)" if "i < k" for i
    using that k(1) by (simp add: lines nth_enumerate_eq)
  show ?thesis
    using k(1) k(3) len nth by (intro exI [of _ k]) simp
qed

lemma filter_entries_survives: "filter_entries ih ig xs = filter (survives ih ig) xs"
  by (auto simp: filter_entries_def survives_def Let_def intro: filter_cong)

lemma all_entries_split:
  "all_entries root ih ig names
     = filter (\<lambda>e. \<not> isdir (child root e)) (filter (survives ih ig) (sort names))
       @ filter (\<lambda>e. isdir (child root e)) (filter (survives ih ig) (sort names))"
  by (simp add: all_entries_def filter_entries_survives o_def)

lemma set_all_entries:
  "set (all_entries root ih ig names) = {e \<in> set names. survives ih ig e}"
  by (auto simp: all_entries_split)


lemma sorted_all_entries_parts:
  "sorted (filter Q (filter (survives ih ig) (sort names)))"
  by (simp add: sorted_wrt_filter)

lemma last_index_iff: "last_index i n = (Suc i = n)"
  by (auto simp: last_index_def)


lemma last_entry_line:
  assumes "47 \<notin> set e"
  shows "entry_line P prefix b e d \<noteq> [] \<and> (last (entry_line P prefix b e d) = 47) = d"
proof -
  have c: "connector b \<noteq> []" "last (connector b) = 32" by (simp_all add: connector_def)
  have e: "e \<noteq> [] \<Longrightarrow> last e \<noteq> 47" using assms last_in_set by metis
  show ?thesis
    using c e
    by (cases "e = []")
       (simp_all add: entry_line_def filename_with_codepoints_def ascii_def)
qed

text \<open>
  C3: in the listing of a directory the file entries come before the directory entries,
  and each of the two groups is in sorted order of the names (Python's order on strings,
  by code point); no surviving name is lost.  The lines of the listing are those of
  \<open>files @ dirs\<close> in this order, all of them when the call returns and an initial
  segment when a recursive call raised.
\<close>

theorem files_before_directories:
  assumes "listdir root = Inr names"
  shows "\<exists>files dirs k.
      all_entries root ih ig names = files @ dirs
    \<and> sorted files \<and> sorted dirs
    \<and> (\<forall>e\<in>set files. \<not> isdir (child root e)) \<and> (\<forall>e\<in>set dirs. isdir (child root e))
    \<and> set (files @ dirs) = {e \<in> set names. survives ih ig e}
    \<and> k \<le> length (files @ dirs)
    \<and> (snd (print_tree P root prefix ih ig) = None \<longrightarrow> k = length (files @ dirs))
    \<and> listing_lines prefix (fst (print_tree P root prefix ih ig))
        = map (\<lambda>i. entry_line P prefix (Suc i = length (files @ dirs)) ((files @ dirs) ! i)
                     (isdir (child root ((files @ dirs) ! i)))) [0..<k]"
proof -
  let ?vis = "filter (survives ih ig) (sort names)"
  let ?files = "filter (\<lambda>e. \<not> isdir (child root e)) ?vis"
  let ?dirs = "filter (\<lambda>e. isdir (child root e)) ?vis"
  let ?all = "all_entries root ih ig names"
  let ?lines = "listing_lines prefix (fst (print_tree P root prefix ih ig))"
  have split: "?all = ?files @ ?dirs" by (rule all_entries_split)
  from print_tree_listing_lines [OF assms, of ih ig prefix P]
  obtain k where k: "k \<le> length ?all" "length ?lines = k"
    "snd (print_tree P root prefix ih ig) = None \<longrightarrow> k = length ?all"
    "\<forall>i<k. ?lines ! i = entry_line P prefix (last_index i (length ?all)) (?all ! i)
                            (isdir (child root (?all ! i)))"
    by (elim exE conjE)
  have lines: "?lines = map (\<lambda>i. entry_line P prefix (Suc i = length ?all) (?all ! i)
                     (isdir (child root (?all ! i)))) [0..<k]"
    by (rule nth_equalityI) (simp_all add: k(2) k(4) last_index_iff)
  have "set ?all = {e \<in> set names. survives ih ig e}" by (rule set_all_entries)
  then show ?thesis
    using k(1) k(3) lines sorted_all_entries_parts [of _ ih ig names]
    unfolding split
    by (intro exI [of _ ?files] exI [of _ ?dirs] exI [of _ k]) simp
qed

theorem files_before_directories_witness:
  "listdir example_tree = Inr example_names
   \<and> (\<exists>files dirs k.
      all_entries example_tree True True example_names = files @ dirs
    \<and> sorted files \<and> sorted dirs
    \<and> (\<forall>e\<in>set files. \<not> isdir (child example_tree e))
    \<and> (\<forall>e\<in>set dirs. isdir (child example_tree e))
    \<and> set (files @ dirs) = {e \<in> set example_names. survives True True e}
    \<and> k \<le> length (files @ dirs)
    \<and> (snd (print_tree latin1_isprintable example_tree [] True True) = None
          \<longrightarrow> k = length (files @ dirs))
    \<and> listing_lines [] (fst (print_tree latin1_isprintable example_tree [] True True))
        = map (\<lambda>i. entry_line latin1_isprintable [] (Suc i = length (files @ dirs))
                     ((files @ dirs) ! i) (isdir (child example_tree ((files @ dirs) ! i)))) [0..<k])"
  by (rule conjI [OF listdir_example files_before_directories [OF listdir_example]])



text \<open>
  C7: the line of an entry ends with the separator \<open>/\<close> (code point 47) exactly when
  the entry is a directory.  The names of a listing do not contain the separator.
\<close>

theorem directory_separator:
  assumes "listdir root = Inr names" and "\<forall>e\<in>set names. 47 \<notin> set e"
  shows "\<exists>k\<le>length (all_entries root ih ig names).
      length (listing_lines prefix (fst (print_tree P root prefix ih ig))) = k
    \<and> (snd (print_tree P root prefix ih ig) = None \<longrightarrow> k = length (all_entries root ih ig names))
    \<and> (\<forall>i<k. (listing_lines prefix (fst (print_tree P root prefix ih ig)) ! i \<noteq> []
               \<and> last (listing_lines prefix (fst (print_tree P root prefix ih ig)) ! i) = 47)
              = isdir (child root (all_entries root ih ig names ! i)))"
proof -
  let ?all = "all_entries root ih ig names"
  let ?lines = "listing_lines prefix (fst (print_tree P root prefix ih ig))"
  from print_tree_listing_lines [OF assms(1), of ih ig prefix P]
  obtain k where k: "k \<le> length ?all" "length ?lines = k"
    "snd (print_tree P root prefix ih ig) = None \<longrightarrow> k = length ?all"
    "\<forall>i<k. ?lines ! i = entry_line P prefix (last_index i (length ?all)) (?all ! i)
                            (isdir (child root (?all ! i)))"
    by (elim exE conjE)
  have "(?lines ! i \<noteq> [] \<and> last (?lines ! i) = 47) = isdir (child root (?all ! i))"
    if "i < k" for i
  proof -
    have "?all ! i \<in> set ?all" using that k(1) by simp
    then have "?all ! i \<in> set names" by (simp add: set_all_entries)
    then have "47 \<notin> set (?all ! i)" using assms(2) by blast
    from last_entry_line [OF this] show ?thesis using k(4) that by simp
  qed
  then show ?thesis using k(1,2,3) by (intro exI [of _ k]) simp
qed

theorem directory_separator_witness:
  "listdir example_tree = Inr example_names \<and> 47 \<notin> set (concat example_names)
   \<and> (\<exists>k\<le>length (all_entries example_tree True True example_names).
      length (listing_lines [] (fst (print_tree latin1_isprintable example_tree [] True True))) = k
    \<and> (snd (print_tree latin1_isprintable example_tree [] True True) = None
          \<longrightarrow> k = length (all_entries example_tree True True example_names))
    \<and> (\<forall>i<k. (listing_lines [] (fst (print_tree latin1_isprintable example_tree [] True True)) ! i \<noteq> []
               \<and> last (listing_lines [] (fst (print_tree latin1_isprintable example_tree [] True True)) ! i) = 47)
              = isdir (child example_tree (all_entries example_tree True True example_names ! i))))"
proof -
  have names: "\<forall>e\<in>set example_names. 47 \<notin> set e"
    by (simp add: example_names_def ascii_def)
  have flat: "47 \<notin> set (concat example_names)"
    by (simp add: example_names_def ascii_def)
  show ?thesis
    by (intro conjI listdir_example flat directory_separator [OF listdir_example names])
qed


lemma filename_with_codepoints_spec:
  "filename_with_codepoints P name = spec_annotated P name"
proof -
  have "char_to_codepoint = (\<lambda>c. ascii ''U+'' @ spec_upper_hex4 c)"
    by (rule ext) (simp add: char_to_codepoint_def format_04X_spec)
  then show ?thesis
    by (simp add: filename_with_codepoints_def spec_annotated_def)
qed

lemma repr_char_nonempty: "repr_char P q c \<noteq> []"
  by (simp add: repr_char_def ascii_def)

lemma length_concat_map_ge:
  "(\<And>x. f x \<noteq> []) \<Longrightarrow> length xs \<le> length (concat (map f xs))"
proof (induction xs)
  case Nil
  show ?case by simp
next
  case (Cons x xs)
  have "1 \<le> length (f x)" using Cons.prems [of x] by (cases "f x") simp_all
  then show ?case using Cons.IH [OF Cons.prems] by simp
qed

lemma length_repr: "length name + 2 \<le> length (repr P name)"
  using length_concat_map_ge [of "repr_char P (repr_quote name)" name]
  by (simp add: repr_def repr_char_nonempty Let_def)

lemma length_spec_annotated: "length name < length (spec_annotated P name)"
  using length_repr [of name P] by (simp add: spec_annotated_def)

lemma has_special_iff: "has_special e = (\<exists>c\<in>set e. c > 127 \<or> c < 32)"
  by (simp add: has_special_def list_ex_iff)

lemma entry_line_annotated:
  "(entry_line P prefix b e d
      = prefix @ connector b @ spec_annotated P e @ (if d then ascii ''/'' else []))
     = has_special e"
  using length_spec_annotated [of e P]
  by (auto simp: entry_line_def filename_with_codepoints_spec)

lemma entry_line_bare:
  "\<not> has_special e \<Longrightarrow>
     entry_line P prefix b e d = prefix @ connector b @ e @ (if d then ascii ''/'' else [])"
  by (simp add: entry_line_def)

lemma print_lines_global:
  "l \<in> set (fst (print_tree P root prefix ih ig)) \<Longrightarrow>
     (\<exists>p. l = denied_line p) \<or> (\<exists>p b e d. l = entry_line P p b e d)"
proof (induction root arbitrary: l prefix rule: node_induct)
  case (node root)
  show ?case
  proof (cases "listdir root")
    case (Inl e)
    then have "l = denied_line prefix" using node.prems
      by (simp add: print_tree_listing_fails split: if_splits)
    then show ?thesis by blast
  next
    case (Inr names)
    let ?all = "all_entries root ih ig names"
    let ?n = "length ?all"
    from node.prems have l: "l \<in> set (fst (print_entries P root prefix ih ig ?n 0 ?all))"
      by (simp only: print_tree_listing [OF Inr])
    obtain k where "fst (print_entries P root prefix ih ig ?n 0 ?all)
       = concat (map (entry_block P root prefix ih ig ?n) (take k (enumerate 0 ?all)))"
      using print_entries_blocks [of ?all P root prefix ih ig ?n 0] by (elim exE conjE)
    with l obtain ie where l': "l \<in> set (entry_block P root prefix ih ig ?n ie)" by auto
    let ?b = "last_index (fst ie) ?n"
    show ?thesis
    proof (cases "l = entry_line P prefix ?b (snd ie) (isdir (child root (snd ie)))")
      case True
      then show ?thesis by blast
    next
      case False
      with l' have d: "isdir (child root (snd ie))"
        and c: "l \<in> set (fst (print_tree P (child root (snd ie)) (prefix @ extension ?b) ih ig))"
        by (auto simp: entry_block_def split: if_splits)
      from node.IH [OF d c] show ?thesis .
    qed
  qed
qed

lemma entry_line_form:
  "entry_line P p b e d
     = p @ connector b @ (if has_special e then spec_annotated P e else e)
         @ (if d then ascii ''/'' else [])"
  by (simp add: entry_line_def filename_with_codepoints_spec)

lemma print_lines_form:
  assumes "l \<in> set (fst (print_tree P root prefix ih ig))"
  shows "(\<exists>p. l = p @ ascii ''[Permission Denied]'')
       \<or> (\<exists>p b e d. l = p @ connector b @ (if has_special e then spec_annotated P e else e)
                         @ (if d then ascii ''/'' else []))"
  using print_lines_global [OF assms] unfolding denied_line_def entry_line_form by blast

text \<open>
  C1: the line of an entry carries the annotated form exactly when the name has a
  character with code point above 127 or below 32, and otherwise the bare name.  The
  annotated form lists, in brackets and separated by spaces, one token per character of
  the name in the order of the characters, each token being \<open>U+\<close> and the upper-case
  hexadecimal numeral of the code point padded with zeros to at least four digits.
  Every line of the whole output is the placeholder of a directory that cannot be listed
  or the line of a name in one of these two forms.
\<close>

theorem annotation_iff_special:
  assumes "listdir root = Inr names"
  shows "\<exists>k\<le>length (all_entries root ih ig names).
      length (listing_lines prefix (fst (print_tree P root prefix ih ig))) = k
    \<and> (snd (print_tree P root prefix ih ig) = None \<longrightarrow> k = length (all_entries root ih ig names))
    \<and> (\<forall>i<k.
          has_special (all_entries root ih ig names ! i)
            = (\<exists>c\<in>set (all_entries root ih ig names ! i). c > 127 \<or> c < 32)
        \<and> (listing_lines prefix (fst (print_tree P root prefix ih ig)) ! i
              = prefix @ connector (Suc i = length (all_entries root ih ig names))
                  @ spec_annotated P (all_entries root ih ig names ! i)
                  @ (if isdir (child root (all_entries root ih ig names ! i)) then ascii ''/'' else []))
            = has_special (all_entries root ih ig names ! i)
        \<and> (\<not> has_special (all_entries root ih ig names ! i) \<longrightarrow>
            listing_lines prefix (fst (print_tree P root prefix ih ig)) ! i
              = prefix @ connector (Suc i = length (all_entries root ih ig names))
                  @ all_entries root ih ig names ! i
                  @ (if isdir (child root (all_entries root ih ig names ! i)) then ascii ''/'' else [])))
    \<and> (\<forall>l\<in>set (fst (print_tree P root prefix ih ig)).
          (\<exists>p. l = p @ ascii ''[Permission Denied]'')
        \<or> (\<exists>p b e d. l = p @ connector b @ (if has_special e then spec_annotated P e else e)
                          @ (if d then ascii ''/'' else [])))"
proof -
  let ?all = "all_entries root ih ig names"
  let ?lines = "listing_lines prefix (fst (print_tree P root prefix ih ig))"
  from print_tree_listing_lines [OF assms, of ih ig prefix P]
  obtain k where k: "k \<le> length ?all" "length ?lines = k"
    "snd (print_tree P root prefix ih ig) = None \<longrightarrow> k = length ?all"
    "\<forall>i<k. ?lines ! i = entry_line P prefix (last_index i (length ?all)) (?all ! i)
                            (isdir (child root (?all ! i)))"
    by (elim exE conjE)
  have line: "?lines ! i = entry_line P prefix (Suc i = length ?all) (?all ! i)
                            (isdir (child root (?all ! i)))" if "i < k" for i
    using k(4) that by (simp add: last_index_iff)
  show ?thesis
  proof (intro exI [of _ k] conjI allI impI ballI)
    show "k \<le> length ?all" by (rule k(1))
    show "length ?lines = k" by (rule k(2))
    show "k = length ?all" if "snd (print_tree P root prefix ih ig) = None"
      using k(3) that by simp
    show "(\<exists>p. l = p @ ascii ''[Permission Denied]'')
        \<or> (\<exists>p b e d. l = p @ connector b @ (if has_special e then spec_annotated P e else e)
                          @ (if d then ascii ''/'' else []))"
      if "l \<in> set (fst (print_tree P root prefix ih ig))" for l
      by (rule print_lines_form [OF that])
  next
    fix i assume i: "i < k"
    show "has_special (?all ! i) = (\<exists>c\<in>set (?all ! i). c > 127 \<or> c < 32)"
      by (rule has_special_iff)
    show "(?lines ! i = prefix @ connector (Suc i = length ?all) @ spec_annotated P (?all ! i)
             @ (if isdir (child root (?all ! i)) then ascii ''/'' else []))
          = has_special (?all ! i)"
      unfolding line [OF i] by (rule entry_line_annotated)
    show "?lines ! i = prefix @ connector (Suc i = length ?all) @ ?all ! i
             @ (if isdir (child root (?all ! i)) then ascii ''/'' else [])"
      if "\<not> has_special (?all ! i)"
      unfolding line [OF i] by (rule entry_line_bare [OF that])
  qed
qed

theorem annotation_iff_special_witness:
  "listdir example_tree = Inr example_names
   \<and> (\<exists>k\<le>length (all_entries example_tree True True example_names).
      length (listing_lines [] (fst (print_tree latin1_isprintable example_tree [] True True))) = k
    \<and> (snd (print_tree latin1_isprintable example_tree [] True True) = None
         \<longrightarrow> k = length (all_entries example_tree True True example_names))
    \<and> (\<forall>i<k.
          has_special (all_entries example_tree True True example_names ! i)
            = (\<exists>c\<in>set (all_entries example_tree True True example_names ! i). c > 127 \<or> c < 32)
        \<and> (listing_lines [] (fst (print_tree latin1_isprintable example_tree [] True True)) ! i
              = [] @ connector (Suc i = length (all_entries example_tree True True example_names))
                  @ spec_annotated latin1_isprintable (all_entries example_tree True True example_names ! i)
                  @ (if isdir (child example_tree (all_entries example_tree True True example_names ! i))
                     then ascii ''/'' else []))
            = has_special (all_entries example_tree True True example_names ! i)
        \<and> (\<not> has_special (all_entries example_tree True True example_names ! i) \<longrightarrow>
            listing_lines [] (fst (print_tree latin1_isprintable example_tree [] True True)) ! i
              = [] @ connector (Suc i = length (all_entries example_tree True True example_names))
                  @ all_entries example_tree True True example_names ! i
                  @ (if isdir (child example_tree (all_entries example_tree True True example_names ! i))
                     then ascii ''/'' else [])))
    \<and> (\<forall>l\<in>set (fst (print_tree latin1_isprintable example_tree [] True True)).
          (\<exists>p. l = p @ ascii ''[Permission Denied]'')
        \<or> (\<exists>p b e d. l = p @ connector b
                          @ (if has_special e then spec_annotated latin1_isprintable e else e)
                          @ (if d then ascii ''/'' else []))))"
  by (rule conjI [OF listdir_example annotation_iff_special [OF listdir_example]])






section \<open>The quoted name and the errors of the listing\<close>

lemma repr_quote_cases: "repr_quote name = 39 \<or> repr_quote name = 34"
  by (simp add: repr_quote_def)

lemma repr_char_verbatim: "verbatim P q c \<Longrightarrow> repr_char P q c = [c]"
  by (auto simp: verbatim_def repr_char_def)

lemma repr_char_escaped: "\<not> verbatim P q c \<Longrightarrow> \<exists>r. repr_char P q c = 92 # r \<and> r \<noteq> []"
  by (auto simp: verbatim_def repr_char_def ascii_def)

lemma concat_map_singleton: "(\<And>x. x \<in> set xs \<Longrightarrow> f x = [x]) \<Longrightarrow> concat (map f xs) = xs"
  by (induction xs) simp_all

lemma repr_verbatim:
  assumes "list_all (verbatim P 39) name"
  shows "repr P name = [39] @ name @ [39]"
proof -
  have "39 \<notin> set name" using assms by (auto simp: list_all_iff verbatim_def)
  then have q: "repr_quote name = 39" by (simp add: repr_quote_def)
  have "concat (map (repr_char P 39) name) = name"
    using assms by (intro concat_map_singleton repr_char_verbatim) (simp add: list_all_iff)
  then show ?thesis by (simp add: repr_def q Let_def)
qed

text \<open>
  C2, as amended: the annotated form is \<open>repr\<close> of the name followed by a space and the
  bracketed list of tokens separated by spaces.  \<open>repr\<close> puts the name between two
  quotes, single or double, writes a character as it is when it is neither the quote nor
  the backslash, not below 32, not 127, and printable if above 127, and writes every
  other character as an escape sequence that begins with a backslash.  So a name whose
  characters are all written as they are appears between single quotes unchanged.
\<close>

theorem annotated_form_is_repr:
  "filename_with_codepoints P name
     = repr P name @ ascii '' ['' @ join (ascii '' '') (map char_to_codepoint name) @ ascii '']''
   \<and> (\<exists>q. (q = 39 \<or> q = 34)
         \<and> repr P name = [q] @ concat (map (repr_char P q) name) @ [q]
         \<and> (\<forall>c. verbatim P q c \<longrightarrow> repr_char P q c = [c])
         \<and> (\<forall>c. \<not> verbatim P q c \<longrightarrow> (\<exists>r. repr_char P q c = 92 # r \<and> r \<noteq> [])))
   \<and> (list_all (verbatim P 39) name \<longrightarrow>
        filename_with_codepoints P name = quoted_annotation 39 name)"
proof (intro conjI impI)
  show "filename_with_codepoints P name
     = repr P name @ ascii '' ['' @ join (ascii '' '') (map char_to_codepoint name) @ ascii '']''"
    by (simp add: filename_with_codepoints_def)
  show "\<exists>q. (q = 39 \<or> q = 34)
         \<and> repr P name = [q] @ concat (map (repr_char P q) name) @ [q]
         \<and> (\<forall>c. verbatim P q c \<longrightarrow> repr_char P q c = [c])
         \<and> (\<forall>c. \<not> verbatim P q c \<longrightarrow> (\<exists>r. repr_char P q c = 92 # r \<and> r \<noteq> []))"
    using repr_quote_cases [of name] repr_char_verbatim repr_char_escaped
    by (intro exI [of _ "repr_quote name"]) (simp add: repr_def Let_def)
  show "filename_with_codepoints P name = quoted_annotation 39 name"
    if "list_all (verbatim P 39) name"
    by (simp add: filename_with_codepoints_def quoted_annotation_def repr_verbatim [OF that])
qed

theorem annotated_form_is_repr_witness:
  "has_special [99, 233] \<and> list_all (verbatim latin1_isprintable 39) [99, 233]
   \<and> filename_with_codepoints latin1_isprintable [99, 233]
       = [39, 99, 233, 39] @ ascii '' [U+0063 U+00E9]''"
proof -
  have s: "has_special [99, 233]" by (simp add: has_special_def)
  have h: "list_all (verbatim latin1_isprintable 39) [99, 233]"
    by (simp add: verbatim_def latin1_isprintable_def)
  have "filename_with_codepoints latin1_isprintable [99, 233] = quoted_annotation 39 [99, 233]"
    using annotated_form_is_repr [of latin1_isprintable "[99, 233]"] h by blast
  then show ?thesis using s h by (simp add: quoted_annotation_def eval_defs)
qed

text \<open>
  C2, as stated, fails on a name with a tab between \<open>a\<close> and \<open>b\<close>: the tab is below 32,
  and the annotated form shows it as the two characters \<open>\t\<close>, not as the tab itself,
  whichever the quote.
\<close>

theorem control_character_escaped:
  "has_special [97, 9, 98]
   \<and> filename_with_codepoints latin1_isprintable [97, 9, 98] \<noteq> quoted_annotation 39 [97, 9, 98]
   \<and> filename_with_codepoints latin1_isprintable [97, 9, 98] \<noteq> quoted_annotation 34 [97, 9, 98]
   \<and> filename_with_codepoints latin1_isprintable [97, 9, 98]
       = [39, 97, 92, 116, 98, 39] @ ascii '' [U+0061 U+0009 U+0062]''"
  by (simp add: quoted_annotation_def eval_defs)

text \<open>
  C4: a directory whose listing raises \<open>PermissionError\<close> yields exactly the line of the
  prefix followed by \<open>[Permission Denied]\<close> and a normal return, whatever its children;
  the loop of the parent then goes on with the remaining entries.  Any other error of the
  listing is the result of the call with nothing printed, it ends the loop of the parent
  behind the line of the entry, and it is the result of the parent's call.
\<close>

theorem permission_denied_is_local:
  "print_tree P (Dir (Some PermissionError) cs) prefix ih ig
     = ([prefix @ ascii ''[Permission Denied]''], None)
   \<and> (e \<noteq> PermissionError \<longrightarrow> print_tree P (Dir (Some e) cs) prefix ih ig = ([], Some e))
   \<and> print_tree P File prefix ih ig = ([], Some NotADirectoryError)
   \<and> print_tree P Absent prefix ih ig = ([], Some FileNotFoundError)
   \<and> (child parent entry = Dir (Some PermissionError) cs \<longrightarrow>
        print_entries P parent prefix ih ig n i (entry # rest)
          = (entry_line P prefix (last_index i n) entry True
               # (prefix @ extension (last_index i n) @ ascii ''[Permission Denied]'')
               # fst (print_entries P parent prefix ih ig n (Suc i) rest),
             snd (print_entries P parent prefix ih ig n (Suc i) rest)))
   \<and> (isdir (child parent entry)
        \<and> snd (print_tree P (child parent entry) (prefix @ extension (last_index i n)) ih ig) = Some e
        \<longrightarrow> print_entries P parent prefix ih ig n i (entry # rest)
          = (entry_line P prefix (last_index i n) entry True
               # fst (print_tree P (child parent entry) (prefix @ extension (last_index i n)) ih ig),
             Some e))
   \<and> (listdir parent = Inr names \<longrightarrow>
        print_tree P parent prefix ih ig
          = print_entries P parent prefix ih ig (length (all_entries parent ih ig names)) 0
              (all_entries parent ih ig names))"
proof (intro conjI impI)
  show "print_tree P (Dir (Some PermissionError) cs) prefix ih ig
     = ([prefix @ ascii ''[Permission Denied]''], None)"
    by (simp add: print_tree.simps)
  show "print_tree P (Dir (Some e) cs) prefix ih ig = ([], Some e)" if "e \<noteq> PermissionError"
    using that by (simp add: print_tree.simps)
  show "print_tree P File prefix ih ig = ([], Some NotADirectoryError)"
    by (simp add: print_tree.simps)
  show "print_tree P Absent prefix ih ig = ([], Some FileNotFoundError)"
    by (simp add: print_tree.simps)
  show "print_entries P parent prefix ih ig n i (entry # rest)
          = (entry_line P prefix (last_index i n) entry True
               # (prefix @ extension (last_index i n) @ ascii ''[Permission Denied]'')
               # fst (print_entries P parent prefix ih ig n (Suc i) rest),
             snd (print_entries P parent prefix ih ig n (Suc i) rest))"
    if c: "child parent entry = Dir (Some PermissionError) cs"
  proof -
    have d: "isdir (child parent entry)" by (simp add: c)
    have r: "print_tree P (child parent entry) (prefix @ extension (last_index i n)) ih ig
           = ([prefix @ extension (last_index i n) @ ascii ''[Permission Denied]''], None)"
      by (simp add: c print_tree.simps)
    then have "snd (print_tree P (child parent entry) (prefix @ extension (last_index i n)) ih ig)
           = None" by simp
    from print_entries_dir_returns [OF d this] show ?thesis by (simp only: r fst_conv append_Cons append_Nil)
  qed
  show "print_entries P parent prefix ih ig n i (entry # rest)
          = (entry_line P prefix (last_index i n) entry True
               # fst (print_tree P (child parent entry) (prefix @ extension (last_index i n)) ih ig),
             Some e)"
    if "isdir (child parent entry)
        \<and> snd (print_tree P (child parent entry) (prefix @ extension (last_index i n)) ih ig) = Some e"
    using that by (intro print_entries_dir_raises) blast+
  show "print_tree P parent prefix ih ig
          = print_entries P parent prefix ih ig (length (all_entries parent ih ig names)) 0
              (all_entries parent ih ig names)"
    if "listdir parent = Inr names"
    by (rule print_tree_listing [OF that])
qed

theorem permission_denied_is_local_witness:
  "child example_tree (ascii ''locked'') = Dir (Some PermissionError) [(ascii ''x'', File)]
   \<and> OtherOSError \<noteq> PermissionError
   \<and> print_tree latin1_isprintable (Dir (Some OtherOSError) [(ascii ''x'', File)]) [] True True
       = ([], Some OtherOSError)
   \<and> print_entries latin1_isprintable example_tree [] True True 5 3 [ascii ''locked'', ascii ''sub'']
       = (entry_line latin1_isprintable [] (last_index 3 5) (ascii ''locked'') True
            # ([] @ extension (last_index 3 5) @ ascii ''[Permission Denied]'')
            # fst (print_entries latin1_isprintable example_tree [] True True 5 (Suc 3) [ascii ''sub'']),
          snd (print_entries latin1_isprintable example_tree [] True True 5 (Suc 3) [ascii ''sub'']))"
proof -
  have c: "child example_tree (ascii ''locked'') = Dir (Some PermissionError) [(ascii ''x'', File)]"
    by (simp add: example_tree_def ascii_def)
  have e: "OtherOSError \<noteq> PermissionError" by simp
  note local = permission_denied_is_local [where P = latin1_isprintable
      and cs = "[(ascii ''x'', File)]" and prefix = "[]" and ih = True and ig = True
      and e = OtherOSError and parent = example_tree and entry = "ascii ''locked''"
      and n = 5 and i = 3 and rest = "[ascii ''sub'']"]
  from local c e show ?thesis by blast
qed

section \<open>The two filters\<close>

lemma filter_entries_git_redundant: "filter_entries True True xs = filter_entries True False xs"
proof -
  have "startswith (ascii ''.git'') (ascii ''.'')" by (simp add: startswith_def ascii_def)
  then have "\<not> startswith e (ascii ''.'') \<Longrightarrow> e \<noteq> ascii ''.git''" for e by blast
  then show ?thesis by (auto simp: filter_entries_def Let_def intro: filter_cong)
qed

lemma all_entries_git_redundant:
  "all_entries root True True names = all_entries root True False names"
  by (simp add: all_entries_def filter_entries_git_redundant)

lemma print_entries_git_redundant:
  assumes "\<And>e p. isdir (child root e) \<Longrightarrow>
             print_tree P (child root e) p True True = print_tree P (child root e) p True False"
  shows "print_entries P root prefix True True n i es = print_entries P root prefix True False n i es"
proof (induction es arbitrary: i)
  case Nil
  show ?case by simp
next
  case (Cons e es)
  show ?case
  proof (cases "isdir (child root e)")
    case True
    have c: "print_tree P (child root e) (prefix @ extension (last_index i n)) True True
        = print_tree P (child root e) (prefix @ extension (last_index i n)) True False"
      by (rule assms [OF True])
    show ?thesis
      by (simp only: print_entries.simps c Cons.IH)
  next
    case False
    then show ?thesis
      by (simp only: print_entries_file [OF False] Cons.IH)
  qed
qed

text \<open>
  C10: with \<open>ignore_hidden\<close> set, \<open>ignore_git\<close> changes nothing: \<open>.git\<close> begins with a
  dot and is already removed by the first filter, in every directory of the tree, so the
  lines printed and the result of \<open>print_tree\<close> are the same for both values.
\<close>

theorem ignore_git_redundant:
  "print_tree P root prefix True True = print_tree P root prefix True False"
proof (induction root arbitrary: prefix rule: node_induct)
  case (node root)
  show ?case
  proof (cases "listdir root")
    case (Inl e)
    then show ?thesis by (simp only: print_tree_listing_fails)
  next
    case (Inr names)
    show ?thesis
      unfolding print_tree_listing [OF Inr] all_entries_git_redundant
      by (rule print_entries_git_redundant) (rule node.IH)
  qed
qed

section \<open>The number of entry lines\<close>

lemma bars_extension: "set prefix \<subseteq> {32, 0x2502} \<Longrightarrow> set (prefix @ extension b) \<subseteq> {32, 0x2502}"
  by (auto simp: extension_def ascii_def)

lemma entry_line_is_entry:
  assumes "set prefix \<subseteq> {32, 0x2502}"
  shows "is_entry_line (entry_line P prefix b e d)"
proof -
  obtain r where r: "entry_line P prefix b e d = prefix @ connector b @ r"
    using entry_line_prefix by blast
  have "dropWhile (\<lambda>c. c = 32 \<or> c = 0x2502) (prefix @ connector b @ r)
      = dropWhile (\<lambda>c. c = 32 \<or> c = 0x2502) (connector b @ r)"
    using assms by (intro dropWhile_append2) auto
  then show ?thesis by (simp add: is_entry_line_def r connector_def)
qed

lemma denied_line_not_entry:
  assumes "set prefix \<subseteq> {32, 0x2502}"
  shows "\<not> is_entry_line (denied_line prefix)"
proof -
  have "dropWhile (\<lambda>c. c = 32 \<or> c = 0x2502) (prefix @ ascii ''[Permission Denied]'')
      = dropWhile (\<lambda>c. c = 32 \<or> c = 0x2502) (ascii ''[Permission Denied]'')"
    using assms by (intro dropWhile_append2) auto
  then show ?thesis by (simp add: is_entry_line_def denied_line_def ascii_def)
qed

lemma count_entries_not_listed: "listdir root = Inl e \<Longrightarrow> count_entries ih ig root = 0"
  by (cases "(ih, ig, root)" rule: count_entries.cases) simp_all

lemma count_entries_not_dir: "\<not> isdir c \<Longrightarrow> count_entries ih ig c = 0"
  by (cases c) simp_all

lemma distinct_names_child: "distinct_names root \<Longrightarrow> distinct_names (child root e)"
proof (cases root)
  case (Dir err cs)
  assume d: "distinct_names root"
  show ?thesis
  proof (cases "map_of cs e")
    case None
    then show ?thesis using Dir by simp
  next
    case (Some c)
    then have "(e, c) \<in> set cs" by (rule map_of_SomeD)
    then have "distinct_names c" using d Dir by (auto simp: list_all_iff)
    then show ?thesis using Dir Some by simp
  qed
qed simp_all

lemma sum_list_map_insort:
  "sum_list (map h (insort x ys)) = h x + sum_list (map (h :: 'a::linorder \<Rightarrow> nat) ys)"
  by (induction ys) simp_all

lemma sum_list_map_sort: "sum_list (map h (sort xs)) = sum_list (map (h :: 'a::linorder \<Rightarrow> nat) xs)"
  by (induction xs) (simp_all add: sum_list_map_insort)

lemma sum_list_map_partition:
  "sum_list (map g (filter (\<lambda>x. \<not> Q x) xs)) + sum_list (map g (filter Q xs))
     = sum_list (map (g :: 'a \<Rightarrow> nat) xs)"
  by (induction xs) simp_all

lemma sum_all_entries:
  "sum_list (map g (all_entries root ih ig names))
     = sum_list (map (\<lambda>e. if survives ih ig e then g e else (0::nat)) names)"
proof -
  have "sum_list (map g (all_entries root ih ig names))
      = sum_list (map g (filter (survives ih ig) (sort names)))"
    by (simp only: all_entries_split map_append sum_list_append sum_list_map_partition)
  also have "\<dots> = sum_list (map (\<lambda>e. if survives ih ig e then g e else 0) (sort names))"
    by (rule sum_list_map_filter')
  also have "\<dots> = sum_list (map (\<lambda>e. if survives ih ig e then g e else 0) names)"
    by (rule sum_list_map_sort)
  finally show ?thesis .
qed

lemma count_entries_listing:
  assumes "distinct (map fst cs)"
  shows "sum_list (map (\<lambda>e. 1 + count_entries ih ig (child (Dir None cs) e))
            (all_entries (Dir None cs) ih ig (map fst cs)))
         = count_entries ih ig (Dir None cs)"
proof -
  have "(if survives ih ig (fst nc) then 1 + count_entries ih ig (child (Dir None cs) (fst nc)) else 0)
      = (case nc of (name, c) \<Rightarrow> if survives ih ig name then 1 + count_entries ih ig c else 0)"
    if "nc \<in> set cs" for nc
  proof -
    obtain name c where nc: "nc = (name, c)" by (cases nc)
    with that assms have "map_of cs name = Some c" by (simp add: map_of_is_SomeI)
    then show ?thesis by (simp add: nc)
  qed
  then have eq: "map (\<lambda>nc. if survives ih ig (fst nc)
                        then 1 + count_entries ih ig (child (Dir None cs) (fst nc)) else 0) cs
      = map (\<lambda>(name, c). if survives ih ig name then 1 + count_entries ih ig c else 0) cs"
    by (intro map_cong refl)
  have "sum_list (map (\<lambda>e. 1 + count_entries ih ig (child (Dir None cs) e))
            (all_entries (Dir None cs) ih ig (map fst cs)))
      = sum_list (map (\<lambda>e. if survives ih ig e
                             then 1 + count_entries ih ig (child (Dir None cs) e) else 0)
                   (map fst cs))"
    by (rule sum_all_entries)
  also have "\<dots> = sum_list (map (\<lambda>nc. if survives ih ig (fst nc)
                        then 1 + count_entries ih ig (child (Dir None cs) (fst nc)) else 0) cs)"
    by (simp only: map_map o_def)
  also have "\<dots> = sum_list (map (\<lambda>(name, c). if survives ih ig name
                        then 1 + count_entries ih ig c else 0) cs)"
    by (simp only: eq)
  also have "\<dots> = count_entries ih ig (Dir None cs)"
    by (simp only: count_entries.simps)
  finally show ?thesis .
qed

lemma count_print_entries:
  assumes bars: "set prefix \<subseteq> {32, 0x2502}"
    and children: "\<And>e p. isdir (child root e) \<Longrightarrow> set p \<subseteq> {32, 0x2502} \<Longrightarrow>
        snd (print_tree P (child root e) p ih ig) = None \<Longrightarrow>
        length (filter is_entry_line (fst (print_tree P (child root e) p ih ig)))
          = count_entries ih ig (child root e)"
  shows "snd (print_entries P root prefix ih ig n i es) = None \<Longrightarrow>
     length (filter is_entry_line (fst (print_entries P root prefix ih ig n i es)))
       = sum_list (map (\<lambda>e. 1 + count_entries ih ig (child root e)) es)"
proof (induction es arbitrary: i)
  case Nil
  show ?case by simp
next
  case (Cons e es)
  let ?child = "print_tree P (child root e) (prefix @ extension (last_index i n)) ih ig"
  consider (regular) "\<not> isdir (child root e)"
    | (raises) err where "isdir (child root e)" "snd ?child = Some err"
    | (returns) "isdir (child root e)" "snd ?child = None"
    by (cases "snd ?child") blast+
  then show ?case
  proof cases
    case regular
    have rest: "snd (print_entries P root prefix ih ig n (Suc i) es) = None"
      using Cons.prems by (simp only: print_entries_file [OF regular] snd_conv)
    show ?thesis
      by (simp only: print_entries_file [OF regular])
         (simp add: Cons.IH [OF rest] entry_line_is_entry [OF bars]
            count_entries_not_dir [OF regular])
  next
    case raises
    have "snd (print_entries P root prefix ih ig n i (e # es)) = Some err"
      by (simp only: print_entries_dir_raises [OF raises] snd_conv)
    with Cons.prems show ?thesis by simp
  next
    case returns
    have rest: "snd (print_entries P root prefix ih ig n (Suc i) es) = None"
      using Cons.prems by (simp only: print_entries_dir_returns [OF returns] snd_conv)
    have c: "length (filter is_entry_line (fst ?child)) = count_entries ih ig (child root e)"
      by (rule children [OF returns(1) bars_extension [OF bars] returns(2)])
    show ?thesis
      by (simp only: print_entries_dir_returns [OF returns])
         (simp add: Cons.IH [OF rest] entry_line_is_entry [OF bars] c)
  qed
qed

text \<open>
  C5, as amended: when \<open>print_tree\<close> returns without an uncaught error, the number of entry lines it printed is the number of
  entries reachable under the root that survive the filters.  The names within each
  directory are distinct, and the prefix of the call consists of spaces and vertical
  bars, as the empty prefix of the top-level call does.
\<close>

theorem entry_line_count:
  assumes "distinct_names root" and "set prefix \<subseteq> {32, 0x2502}"
    and "snd (print_tree P root prefix ih ig) = None"
  shows "length (filter is_entry_line (fst (print_tree P root prefix ih ig)))
           = count_entries ih ig root"
  using assms
proof (induction root arbitrary: prefix rule: node_induct)
  case (node root)
  show ?case
  proof (cases "listdir root")
    case (Inl e)
    have "print_tree P root prefix ih ig = ([denied_line prefix], None)"
      using node.prems(3) by (simp add: print_tree_listing_fails [OF Inl] split: if_splits)
    then show ?thesis
      by (simp add: denied_line_not_entry [OF node.prems(2)] count_entries_not_listed [OF Inl])
  next
    case (Inr names)
    then obtain cs where root: "root = Dir None cs" and names: "names = map fst cs"
      by (cases root rule: listdir.cases) simp_all
    let ?all = "all_entries root ih ig names"
    have ret: "snd (print_entries P root prefix ih ig (length ?all) 0 ?all) = None"
      using node.prems(3) by (simp only: print_tree_listing [OF Inr])
    have "length (filter is_entry_line (fst (print_entries P root prefix ih ig (length ?all) 0 ?all)))
        = sum_list (map (\<lambda>e. 1 + count_entries ih ig (child root e)) ?all)"
    proof (rule count_print_entries [OF node.prems(2) _ ret])
      fix e p
      assume "isdir (child root e)" "set p \<subseteq> {32, 0x2502}"
        "snd (print_tree P (child root e) p ih ig) = None"
      then show "length (filter is_entry_line (fst (print_tree P (child root e) p ih ig)))
          = count_entries ih ig (child root e)"
        using node.IH distinct_names_child [OF node.prems(1)] by blast
    qed
    also have "\<dots> = count_entries ih ig root"
      unfolding root names using node.prems(1) root
      by (intro count_entries_listing) simp
    finally show ?thesis by (simp only: print_tree_listing [OF Inr])
  qed
qed

lemma example_distinct: "distinct_names example_tree"
  by (simp add: example_tree_def ascii_def)

theorem entry_line_count_witness:
  "distinct_names example_tree \<and> set ([]::ustr) \<subseteq> {32, 0x2502}
   \<and> snd (print_tree latin1_isprintable example_tree [] True True) = None
   \<and> length (filter is_entry_line (fst (print_tree latin1_isprintable example_tree [] True True))) = 6
   \<and> count_entries True True example_tree = 6"
proof -
  have d: "distinct_names example_tree" by (rule example_distinct)
  have b: "set ([]::ustr) \<subseteq> {32, 0x2502}" by simp
  have r: "snd (print_tree latin1_isprintable example_tree [] True True) = None"
    by (simp add: print_tree_example)
  have c: "count_entries True True example_tree = 6"
    by (simp add: example_tree_def survives_def startswith_def ascii_def)
  from entry_line_count [OF d b r] d b r c show ?thesis by simp
qed

text \<open>
  C5, as stated, fails on a tree with a directory whose listing raises an error other than
  \<open>PermissionError\<close>: five entries are reachable and survive the filters, and the call
  ends behind the third entry line.
\<close>

theorem entry_line_count_fails:
  "distinct_names unreadable_tree
   \<and> snd (print_tree latin1_isprintable unreadable_tree [] True True) = Some OtherOSError
   \<and> length (filter is_entry_line (fst (print_tree latin1_isprintable unreadable_tree [] True True))) = 3
   \<and> count_entries True True unreadable_tree = 5
   \<and> length (filter is_entry_line (fst (print_tree latin1_isprintable unreadable_tree [] True True)))
       \<noteq> count_entries True True unreadable_tree"
proof -
  have d: "distinct_names unreadable_tree" by (simp add: unreadable_tree_def ascii_def)
  have c: "count_entries True True unreadable_tree = 5"
    by (simp add: unreadable_tree_def survives_def startswith_def ascii_def)
  have l: "length (filter is_entry_line
             (fst (print_tree latin1_isprintable unreadable_tree [] True True))) = 3"
    by (simp add: print_tree_unreadable is_entry_line_def)
  show ?thesis using d c l by (simp add: print_tree_unreadable)
qed

end
